theory Spec2Isabelle
  imports Main
begin

section \<open>Python values used by the cipher module\<close>

text \<open>
  A Python \<open>str\<close> is a sequence of Unicode code points. A character is modelled by its
  code point, a string by the list of its code points. The space character is code point
  32. Every natural number is admitted as a code point, so what is proved for all
  strings holds for all Python strings. \<open>str\<close> turns an ASCII literal into such a
  string, for writing examples.
\<close>

type_synonym pychar = nat
type_synonym pystr = "pychar list"

definition str :: "string \<Rightarrow> pystr" where
  "str s = map of_char s"

text \<open>
  The exceptions the module can end with. \<open>CipherError\<close> and \<open>AlphabetError\<close> are the
  module's own classes, \<open>AlphabetError\<close> being a subclass of \<open>CipherError\<close>; the others
  are Python's built-in exceptions. The message of an exception (a fixed text, or a text
  built from the offending character or from the path) is kept as a value of \<open>message\<close>.
\<close>

datatype message =
    EmptyAlphabet
  | DuplicateChars
  | CharNotFound pychar
  | EmptyKey
  | AlphabetFileNotFound pystr

datatype error =
    CipherError message
  | AlphabetError message
  | FileNotFoundError message
  | ZeroDivisionError
  | ValueError
  | IndexError

text \<open>\<open>isinstance(e, CipherError)\<close>: true of the class and of its subclass.\<close>

fun isinstance_CipherError :: "error \<Rightarrow> bool" where
  "isinstance_CipherError (CipherError m) = True"
| "isinstance_CipherError (AlphabetError m) = True"
| "isinstance_CipherError e = False"

text \<open>\<open>isinstance(e, AlphabetError)\<close>.\<close>

fun isinstance_AlphabetError :: "error \<Rightarrow> bool" where
  "isinstance_AlphabetError (AlphabetError m) = True"
| "isinstance_AlphabetError e = False"

text \<open>\<open>a % b\<close> on Python integers: the result has the sign of the divisor; a zero divisor raises.\<close>

definition py_mod :: "int \<Rightarrow> int \<Rightarrow> error + int" where
  "py_mod a b = (if b = 0 then Inl ZeroDivisionError else Inr (a mod b))"

text \<open>\<open>s[i]\<close>: a negative index counts from the end; out of range raises.\<close>

definition getitem :: "pystr \<Rightarrow> int \<Rightarrow> error + pychar" where
  "getitem s i =
     (if 0 \<le> i \<and> i < int (length s) then Inr (s ! nat i)
      else if - int (length s) \<le> i \<and> i < 0 then Inr (s ! nat (int (length s) + i))
      else Inl IndexError)"

text \<open>\<open>s.index(c)\<close> for a one-character \<open>c\<close>: the first position of \<open>c\<close>, or \<open>ValueError\<close>.\<close>

fun str_index :: "pystr \<Rightarrow> pychar \<Rightarrow> error + int" where
  "str_index [] c = Inl ValueError"
| "str_index (x # xs) c =
     (if x = c then Inr 0
      else case str_index xs c of Inl e \<Rightarrow> Inl e | Inr i \<Rightarrow> Inr (i + 1))"

text \<open>\<open>key.replace(' ', '')\<close>.\<close>

definition remove_spaces :: "pystr \<Rightarrow> pystr" where
  "remove_spaces key = filter (\<lambda>c. c \<noteq> 32) key"

text \<open>
  \<open>str.isspace\<close> on one character, which is what \<open>str.strip()\<close> removes at both ends:
  the code points Python treats as whitespace.
\<close>

definition py_isspace :: "pychar \<Rightarrow> bool" where
  "py_isspace c \<longleftrightarrow>
     (9 \<le> c \<and> c \<le> 13) \<or> (28 \<le> c \<and> c \<le> 32) \<or> c = 133 \<or> c = 160 \<or> c = 5760 \<or>
     (8192 \<le> c \<and> c \<le> 8202) \<or> c = 8232 \<or> c = 8233 \<or> c = 8239 \<or> c = 8287 \<or> c = 12288"

definition strip :: "pystr \<Rightarrow> pystr" where
  "strip s = rev (dropWhile py_isspace (rev (dropWhile py_isspace s)))"

section \<open>The cipher module\<close>

subsection \<open>\<open>read_alphabet\<close>\<close>

text \<open>
  \<open>ciphers.py\<close>, lines 29 to 55. The file system is a map from a path to the text that
  \<open>f.read()\<close> returns for the file there; a path outside its domain is a file that does
  not exist. A file that exists and cannot be opened or decoded is outside the model.
\<close>

type_synonym filesystem = "pystr \<rightharpoonup> pystr"

definition read_alphabet :: "filesystem \<Rightarrow> pystr \<Rightarrow> error + pystr" where
  "read_alphabet fs filepath =
     (case fs filepath of
        None \<Rightarrow> Inl (FileNotFoundError (AlphabetFileNotFound filepath))
      | Some content \<Rightarrow>
          (let alphabet = strip content
           in if alphabet = [] then Inl (AlphabetError EmptyAlphabet)
              else if length alphabet \<noteq> card (set alphabet) then Inl (AlphabetError DuplicateChars)
              else Inr alphabet))"

subsection \<open>\<open>validate_text\<close>\<close>

text \<open>
  \<open>ciphers.py\<close>, lines 57 to 72. The function returns nothing; it either raises at the
  first character that is neither in the alphabet nor a space, or ends normally.
\<close>

fun validate_text :: "pystr \<Rightarrow> pystr \<Rightarrow> error + unit" where
  "validate_text [] alphabet = Inr ()"
| "validate_text (char # text) alphabet =
     (if char \<notin> set alphabet \<and> char \<noteq> 32 then Inl (AlphabetError (CharNotFound char))
      else validate_text text alphabet)"

subsection \<open>\<open>caesar_cipher\<close>\<close>

text \<open>
  \<open>ciphers.py\<close>, lines 75 to 113. \<open>caesar_new_idx\<close> is the index computed for one
  character: \<open>(idx + key) % n\<close> when encrypting, \<open>(idx - key) % n\<close> when decrypting.
\<close>

definition caesar_new_idx :: "int \<Rightarrow> int \<Rightarrow> int \<Rightarrow> bool \<Rightarrow> error + int" where
  "caesar_new_idx idx key n encrypt =
     (if encrypt then py_mod (idx + key) n else py_mod (idx - key) n)"

text \<open>The loop over the text; \<open>result\<close> is the list built so far.\<close>

fun caesar_loop :: "pystr \<Rightarrow> int \<Rightarrow> pystr \<Rightarrow> bool \<Rightarrow> int \<Rightarrow> pystr \<Rightarrow> error + pystr" where
  "caesar_loop [] key alphabet encrypt n result = Inr result"
| "caesar_loop (char # text) key alphabet encrypt n result =
     (if char = 32 then caesar_loop text key alphabet encrypt n (result @ [32])
      else
        (case str_index alphabet char of Inl e \<Rightarrow> Inl e | Inr idx \<Rightarrow>
        (case caesar_new_idx idx key n encrypt of Inl e \<Rightarrow> Inl e | Inr new_idx \<Rightarrow>
        (case getitem alphabet new_idx of Inl e \<Rightarrow> Inl e | Inr c \<Rightarrow>
           caesar_loop text key alphabet encrypt n (result @ [c])))))"

definition caesar_cipher :: "pystr \<Rightarrow> int \<Rightarrow> pystr \<Rightarrow> bool \<Rightarrow> error + pystr" where
  "caesar_cipher text key alphabet encrypt =
     (case validate_text text alphabet of Inl e \<Rightarrow> Inl e | Inr u \<Rightarrow>
        caesar_loop text key alphabet encrypt (int (length alphabet)) [])"

subsection \<open>\<open>vigenere_cipher\<close>\<close>

text \<open>
  \<open>ciphers.py\<close>, lines 116 to 162. The text is validated, then the key, then the key is
  compared with the empty string, and only then are its spaces removed.
\<close>

definition vigenere_new_idx :: "int \<Rightarrow> int \<Rightarrow> int \<Rightarrow> bool \<Rightarrow> error + int" where
  "vigenere_new_idx text_idx key_idx n encrypt =
     (if encrypt then py_mod (text_idx + key_idx) n else py_mod (text_idx - key_idx) n)"

text \<open>
  The loop over \<open>enumerate(text)\<close>: \<open>i\<close> is the position of the next character, and
  \<open>key\<close> is the key with its spaces removed.
\<close>

fun vigenere_loop :: "nat \<Rightarrow> pystr \<Rightarrow> pystr \<Rightarrow> pystr \<Rightarrow> bool \<Rightarrow> int \<Rightarrow> pystr \<Rightarrow> error + pystr" where
  "vigenere_loop i [] key alphabet encrypt n result = Inr result"
| "vigenere_loop i (char # text) key alphabet encrypt n result =
     (if char = 32 then vigenere_loop (i + 1) text key alphabet encrypt n (result @ [32])
      else
        (case str_index alphabet char of Inl e \<Rightarrow> Inl e | Inr text_idx \<Rightarrow>
        (case py_mod (int i) (int (length key)) of Inl e \<Rightarrow> Inl e | Inr k \<Rightarrow>
        (case getitem key k of Inl e \<Rightarrow> Inl e | Inr key_char \<Rightarrow>
        (case str_index alphabet key_char of Inl e \<Rightarrow> Inl e | Inr key_idx \<Rightarrow>
        (case vigenere_new_idx text_idx key_idx n encrypt of Inl e \<Rightarrow> Inl e | Inr new_idx \<Rightarrow>
        (case getitem alphabet new_idx of Inl e \<Rightarrow> Inl e | Inr c \<Rightarrow>
           vigenere_loop (i + 1) text key alphabet encrypt n (result @ [c]))))))))"

definition vigenere_cipher :: "pystr \<Rightarrow> pystr \<Rightarrow> pystr \<Rightarrow> bool \<Rightarrow> error + pystr" where
  "vigenere_cipher text key alphabet encrypt =
     (case validate_text text alphabet of Inl e \<Rightarrow> Inl e | Inr u \<Rightarrow>
     (case validate_text key alphabet of Inl e \<Rightarrow> Inl e | Inr u' \<Rightarrow>
        if key = [] then Inl (CipherError EmptyKey)
        else vigenere_loop 0 text (remove_spaces key) alphabet encrypt (int (length alphabet)) []))"

subsection \<open>\<open>atbash_cipher\<close>\<close>

text \<open>\<open>ciphers.py\<close>, lines 165 to 198. \<open>alphabet[::-1]\<close> is the reversed alphabet.\<close>

fun atbash_loop :: "pystr \<Rightarrow> pystr \<Rightarrow> pystr \<Rightarrow> pystr \<Rightarrow> error + pystr" where
  "atbash_loop [] alphabet reversed_alphabet result = Inr result"
| "atbash_loop (char # text) alphabet reversed_alphabet result =
     (if char = 32 then atbash_loop text alphabet reversed_alphabet (result @ [32])
      else
        (case str_index alphabet char of Inl e \<Rightarrow> Inl e | Inr idx \<Rightarrow>
        (case getitem reversed_alphabet idx of Inl e \<Rightarrow> Inl e | Inr c \<Rightarrow>
           atbash_loop text alphabet reversed_alphabet (result @ [c]))))"

text \<open>The \<open>encrypt\<close> parameter is accepted and never read.\<close>

definition atbash_cipher :: "pystr \<Rightarrow> pystr \<Rightarrow> bool \<Rightarrow> error + pystr" where
  "atbash_cipher text alphabet encrypt =
     (case validate_text text alphabet of Inl e \<Rightarrow> Inl e | Inr u \<Rightarrow>
        atbash_loop text alphabet (rev alphabet) [])"

section \<open>Closed forms of the loops\<close>

text \<open>
  The functions of this section are not part of the module: they say, character by
  character, what a loop of the module returns on a text that passed validation, and the
  lemmas below prove that each loop computes exactly that.
  \<open>first_pos\<close> is the position \<open>alphabet.index(c)\<close> returns, as a natural number.
\<close>

definition first_pos :: "pystr \<Rightarrow> pychar \<Rightarrow> nat" where
  "first_pos alphabet c = (case str_index alphabet c of Inl e \<Rightarrow> 0 | Inr i \<Rightarrow> nat i)"

definition caesar_char :: "pystr \<Rightarrow> int \<Rightarrow> bool \<Rightarrow> pychar \<Rightarrow> pychar" where
  "caesar_char alphabet key encrypt c =
     (if c = 32 then 32
      else alphabet ! nat ((int (first_pos alphabet c) + (if encrypt then key else - key))
                            mod int (length alphabet)))"

definition vigenere_shift :: "pystr \<Rightarrow> pystr \<Rightarrow> nat \<Rightarrow> int" where
  "vigenere_shift alphabet key i = int (first_pos alphabet (key ! (i mod length key)))"

definition vigenere_map :: "pystr \<Rightarrow> pystr \<Rightarrow> bool \<Rightarrow> nat \<Rightarrow> pystr \<Rightarrow> pystr" where
  "vigenere_map alphabet key encrypt i t =
     map (\<lambda>(j, c). caesar_char alphabet (vigenere_shift alphabet key j) encrypt c) (enumerate i t)"

definition atbash_char :: "pystr \<Rightarrow> pychar \<Rightarrow> pychar" where
  "atbash_char alphabet c = (if c = 32 then 32 else rev alphabet ! first_pos alphabet c)"

section \<open>Python operations on valid arguments\<close>

text \<open>
  On a character of the alphabet \<open>index\<close> returns a position inside the alphabet, and on
  an index inside a string \<open>s[i]\<close> returns the character there; so on a text that passed
  validation no step of a loop raises, provided the divisor of \<open>%\<close> is not zero.
\<close>

lemma validate_text_ok_iff:
  "validate_text text alphabet = Inr () \<longleftrightarrow> (\<forall>c\<in>set text. c \<in> set alphabet \<or> c = 32)"
  by (induction "text") auto

lemma str_index_mem:
  "c \<in> set alphabet \<Longrightarrow>
     \<exists>i. str_index alphabet c = Inr (int i) \<and> i < length alphabet \<and> alphabet ! i = c"
proof (induction alphabet)
  case Nil
  then show ?case by simp
next
  case (Cons x xs)
  show ?case
  proof (cases "x = c")
    case True
    then show ?thesis by auto
  next
    case False
    with Cons.prems have "c \<in> set xs" by simp
    then obtain i where "str_index xs c = Inr (int i)" "i < length xs" "xs ! i = c"
      using Cons.IH by blast
    with False have "str_index (x # xs) c = Inr (int (Suc i)) \<and> Suc i < length (x # xs) \<and> (x # xs) ! Suc i = c"
      by simp
    then show ?thesis by blast
  qed
qed

lemma str_index_nth:
  "distinct alphabet \<Longrightarrow> i < length alphabet \<Longrightarrow> str_index alphabet (alphabet ! i) = Inr (int i)"
proof (induction alphabet arbitrary: i)
  case Nil
  then show ?case by simp
next
  case (Cons x xs)
  show ?case
  proof (cases i)
    case 0
    then show ?thesis by simp
  next
    case (Suc j)
    with Cons.prems have j: "j < length xs" and d: "distinct xs" and "x \<notin> set xs" by auto
    then have "x \<noteq> xs ! j" by auto
    with Cons.IH [OF d j] Suc show ?thesis by simp
  qed
qed

lemma first_pos_mem:
  assumes "c \<in> set alphabet"
  shows "str_index alphabet c = Inr (int (first_pos alphabet c))"
    and "first_pos alphabet c < length alphabet"
    and "alphabet ! first_pos alphabet c = c"
  using str_index_mem [OF assms] by (auto simp: first_pos_def)

lemma first_pos_nth:
  "distinct alphabet \<Longrightarrow> i < length alphabet \<Longrightarrow> first_pos alphabet (alphabet ! i) = i"
  by (simp add: first_pos_def str_index_nth)

lemma getitem_nat: "0 \<le> j \<Longrightarrow> j < int (length s) \<Longrightarrow> getitem s j = Inr (s ! nat j)"
  by (simp add: getitem_def)

lemma caesar_new_idx_eq:
  "n \<noteq> 0 \<Longrightarrow> caesar_new_idx idx key n encrypt = Inr ((idx + (if encrypt then key else - key)) mod n)"
  by (simp add: caesar_new_idx_def py_mod_def)

lemma caesar_loop_closed:
  assumes "alphabet \<noteq> []" and "\<forall>c\<in>set text. c \<in> set alphabet \<or> c = 32"
  shows "caesar_loop text key alphabet encrypt (int (length alphabet)) result
           = Inr (result @ map (caesar_char alphabet key encrypt) text)"
  using assms(2)
proof (induction "text" arbitrary: result)
  case Nil
  then show ?case by simp
next
  case (Cons c t)
  show ?case
  proof (cases "c = 32")
    case True
    with Cons show ?thesis by (simp add: caesar_char_def)
  next
    case False
    with Cons.prems have mem: "c \<in> set alphabet" by simp
    let ?n = "int (length alphabet)"
    let ?j = "(int (first_pos alphabet c) + (if encrypt then key else - key)) mod ?n"
    from assms(1) have n: "?n \<noteq> 0" "0 < ?n" by simp_all
    then have j: "0 \<le> ?j" "?j < ?n" by simp_all
    have "caesar_loop (c # t) key alphabet encrypt ?n result
            = caesar_loop t key alphabet encrypt ?n (result @ [alphabet ! nat ?j])"
      using False first_pos_mem(1) [OF mem] caesar_new_idx_eq [OF n(1)] getitem_nat [OF j]
      by simp
    also have "\<dots> = Inr ((result @ [alphabet ! nat ?j]) @ map (caesar_char alphabet key encrypt) t)"
      using Cons.IH Cons.prems by simp
    finally show ?thesis using False by (simp add: caesar_char_def)
  qed
qed

lemma caesar_cipher_closed:
  assumes "alphabet \<noteq> []" and "\<forall>c\<in>set text. c \<in> set alphabet \<or> c = 32"
  shows "caesar_cipher text key alphabet encrypt = Inr (map (caesar_char alphabet key encrypt) text)"
  using assms caesar_loop_closed [OF assms, of key encrypt "[]"]
  by (simp add: caesar_cipher_def validate_text_ok_iff [symmetric])

lemma caesar_char_mem:
  assumes "alphabet \<noteq> []" and "c \<noteq> 32"
  shows "caesar_char alphabet key encrypt c \<in> set alphabet"
proof -
  let ?n = "int (length alphabet)"
  let ?j = "(int (first_pos alphabet c) + (if encrypt then key else - key)) mod ?n"
  from assms(1) have "0 < ?n" by simp
  then have "0 \<le> ?j" "?j < ?n" by simp_all
  then have "nat ?j < length alphabet" by linarith
  then show ?thesis using assms(2) by (simp add: caesar_char_def del: of_nat_add)
qed

lemma caesar_char_inverse:
  assumes "distinct alphabet" and "32 \<notin> set alphabet" and "c \<in> set alphabet \<or> c = 32"
  shows "caesar_char alphabet key False (caesar_char alphabet key True c) = c"
proof (cases "c = 32")
  case True
  then show ?thesis by (simp add: caesar_char_def)
next
  case False
  with assms(3) have mem: "c \<in> set alphabet" by simp
  then have ne: "alphabet \<noteq> []" by auto
  let ?n = "int (length alphabet)"
  let ?i = "first_pos alphabet c"
  let ?j = "(int ?i + key) mod ?n"
  from ne have n: "0 < ?n" by simp
  then have j: "0 \<le> ?j" "?j < ?n" by simp_all
  then have jl: "nat ?j < length alphabet" by linarith
  have enc: "caesar_char alphabet key True c = alphabet ! nat ?j"
    using False by (simp add: caesar_char_def)
  have "alphabet ! nat ?j \<in> set alphabet" using jl by simp
  with assms(2) have ne32: "alphabet ! nat ?j \<noteq> 32" by metis
  have pos: "first_pos alphabet (alphabet ! nat ?j) = nat ?j"
    using first_pos_nth [OF assms(1) jl] .
  have i: "int ?i < ?n" using first_pos_mem(2) [OF mem] by simp
  have "(int (nat ?j) - key) mod ?n = (int ?i + key - key) mod ?n"
    using j by (simp add: mod_diff_left_eq)
  also have "\<dots> = int ?i" using i by simp
  finally have ret: "(int (nat ?j) + - key) mod ?n = int ?i" by simp
  have "caesar_char alphabet key False (alphabet ! nat ?j) = alphabet ! ?i"
    using ne32 pos ret by (simp add: caesar_char_def)
  then show ?thesis using enc first_pos_mem(3) [OF mem] by simp
qed

lemma vigenere_map_Nil: "vigenere_map alphabet key encrypt i [] = []"
  by (simp add: vigenere_map_def)

lemma vigenere_map_Cons:
  "vigenere_map alphabet key encrypt i (c # t) =
     caesar_char alphabet (vigenere_shift alphabet key i) encrypt c
       # vigenere_map alphabet key encrypt (Suc i) t"
  by (simp add: vigenere_map_def)

lemma vigenere_new_idx_eq:
  "n \<noteq> 0 \<Longrightarrow> vigenere_new_idx text_idx key_idx n encrypt
     = Inr ((text_idx + (if encrypt then key_idx else - key_idx)) mod n)"
  by (simp add: vigenere_new_idx_def py_mod_def)

lemma vigenere_key_char:
  assumes "key \<noteq> []"
  shows "py_mod (int i) (int (length key)) = Inr (int (i mod length key))"
    and "getitem key (int (i mod length key)) = Inr (key ! (i mod length key))"
proof -
  show "py_mod (int i) (int (length key)) = Inr (int (i mod length key))"
    using assms by (simp add: py_mod_def zmod_int)
  have "i mod length key < length key" using assms by simp
  then show "getitem key (int (i mod length key)) = Inr (key ! (i mod length key))"
    using getitem_nat [of "int (i mod length key)" key] by simp
qed

lemma vigenere_loop_closed:
  assumes "alphabet \<noteq> []" and "key \<noteq> []" and "set key \<subseteq> set alphabet"
    and "\<forall>c\<in>set t. c \<in> set alphabet \<or> c = 32"
  shows "vigenere_loop i t key alphabet encrypt (int (length alphabet)) result
           = Inr (result @ vigenere_map alphabet key encrypt i t)"
  using assms(4)
proof (induction t arbitrary: i result)
  case Nil
  then show ?case by (simp add: vigenere_map_Nil)
next
  case (Cons c t)
  show ?case
  proof (cases "c = 32")
    case True
    with Cons show ?thesis by (simp add: vigenere_map_Cons caesar_char_def)
  next
    case False
    with Cons.prems have mem: "c \<in> set alphabet" by simp
    let ?n = "int (length alphabet)"
    let ?kc = "key ! (i mod length key)"
    let ?j = "(int (first_pos alphabet c) + (if encrypt then vigenere_shift alphabet key i
                else - vigenere_shift alphabet key i)) mod ?n"
    from assms(1) have n: "?n \<noteq> 0" "0 < ?n" by simp_all
    then have j: "0 \<le> ?j" "?j < ?n" by simp_all
    have "i mod length key < length key" using assms(2) by simp
    then have "?kc \<in> set key" by simp
    with assms(3) have kmem: "?kc \<in> set alphabet" by blast
    have kidx: "str_index alphabet ?kc = Inr (vigenere_shift alphabet key i)"
      using first_pos_mem(1) [OF kmem] by (simp add: vigenere_shift_def)
    have "vigenere_loop i (c # t) key alphabet encrypt ?n result
            = vigenere_loop (Suc i) t key alphabet encrypt ?n (result @ [alphabet ! nat ?j])"
      using False first_pos_mem(1) [OF mem] vigenere_key_char [OF assms(2), of i] kidx
        vigenere_new_idx_eq [OF n(1)] getitem_nat [OF j]
      by simp
    also have "\<dots> = Inr ((result @ [alphabet ! nat ?j]) @ vigenere_map alphabet key encrypt (Suc i) t)"
      using Cons.IH Cons.prems by simp
    finally show ?thesis using False by (simp add: vigenere_map_Cons caesar_char_def)
  qed
qed

lemma remove_spaces_valid:
  "\<forall>c\<in>set key. c \<in> set alphabet \<or> c = 32 \<Longrightarrow> set (remove_spaces key) \<subseteq> set alphabet"
  by (auto simp: remove_spaces_def)

lemma vigenere_cipher_closed:
  assumes "alphabet \<noteq> []" and "\<forall>c\<in>set t. c \<in> set alphabet \<or> c = 32"
    and "\<forall>c\<in>set key. c \<in> set alphabet \<or> c = 32" and "remove_spaces key \<noteq> []"
  shows "vigenere_cipher t key alphabet encrypt
           = Inr (vigenere_map alphabet (remove_spaces key) encrypt 0 t)"
proof -
  have "key \<noteq> []" using assms(4) by (auto simp: remove_spaces_def)
  moreover have "validate_text t alphabet = Inr ()" "validate_text key alphabet = Inr ()"
    using assms(2,3) by (simp_all add: validate_text_ok_iff)
  ultimately show ?thesis
    using vigenere_loop_closed [OF assms(1) assms(4) remove_spaces_valid [OF assms(3)] assms(2),
        of 0 encrypt "[]"]
    by (simp add: vigenere_cipher_def)
qed

lemma vigenere_map_length: "length (vigenere_map alphabet key encrypt i t) = length t"
  by (simp add: vigenere_map_def)

lemma vigenere_map_inverse:
  assumes "distinct alphabet" and "32 \<notin> set alphabet"
    and "\<forall>c\<in>set t. c \<in> set alphabet \<or> c = 32"
  shows "vigenere_map alphabet key False i (vigenere_map alphabet key True i t) = t"
  using assms(3)
proof (induction t arbitrary: i)
  case Nil
  then show ?case by (simp add: vigenere_map_Nil)
next
  case (Cons c t)
  then show ?case
    using caesar_char_inverse [OF assms(1,2), of c]
    by (simp add: vigenere_map_Cons)
qed

lemma vigenere_map_valid:
  assumes "alphabet \<noteq> []"
  shows "\<forall>d\<in>set (vigenere_map alphabet key encrypt i t). d \<in> set alphabet \<or> d = 32"
proof (induction t arbitrary: i)
  case Nil
  then show ?case by (simp add: vigenere_map_Nil)
next
  case (Cons c t)
  have "caesar_char alphabet k encrypt c \<in> set alphabet \<or> caesar_char alphabet k encrypt c = 32" for k
    using caesar_char_mem [OF assms, of c k encrypt] by (cases "c = 32") (simp_all add: caesar_char_def)
  with Cons show ?case by (simp add: vigenere_map_Cons)
qed

lemma vigenere_map_nth:
  "p < length t \<Longrightarrow> vigenere_map alphabet key encrypt i t ! p
     = caesar_char alphabet (vigenere_shift alphabet key (i + p)) encrypt (t ! p)"
  by (simp add: vigenere_map_def nth_enumerate_eq)

lemma vigenere_loop_empty_key:
  assumes "\<forall>c\<in>set t. c \<in> set alphabet \<or> c = 32" and "\<exists>c\<in>set t. c \<noteq> 32"
  shows "vigenere_loop i t [] alphabet encrypt n result = Inl ZeroDivisionError"
  using assms
proof (induction t arbitrary: i result)
  case Nil
  then show ?case by simp
next
  case (Cons c t)
  show ?case
  proof (cases "c = 32")
    case True
    with Cons.prems have "\<forall>c\<in>set t. c \<in> set alphabet \<or> c = 32" "\<exists>c\<in>set t. c \<noteq> 32" by auto
    with Cons.IH True show ?thesis by simp
  next
    case False
    with Cons.prems have mem: "c \<in> set alphabet" by simp
    show ?thesis using False first_pos_mem(1) [OF mem] by (simp add: py_mod_def)
  qed
qed

lemma atbash_loop_closed:
  assumes "\<forall>c\<in>set t. c \<in> set alphabet \<or> c = 32"
  shows "atbash_loop t alphabet (rev alphabet) result = Inr (result @ map (atbash_char alphabet) t)"
  using assms
proof (induction t arbitrary: result)
  case Nil
  then show ?case by simp
next
  case (Cons c t)
  show ?case
  proof (cases "c = 32")
    case True
    with Cons show ?thesis by (simp add: atbash_char_def)
  next
    case False
    with Cons.prems have mem: "c \<in> set alphabet" by simp
    have "getitem (rev alphabet) (int (first_pos alphabet c)) = Inr (rev alphabet ! first_pos alphabet c)"
      using getitem_nat [of "int (first_pos alphabet c)" "rev alphabet"] first_pos_mem(2) [OF mem]
      by simp
    then have "atbash_loop (c # t) alphabet (rev alphabet) result
            = atbash_loop t alphabet (rev alphabet) (result @ [rev alphabet ! first_pos alphabet c])"
      using False first_pos_mem(1) [OF mem] by simp
    also have "\<dots> = Inr ((result @ [rev alphabet ! first_pos alphabet c]) @ map (atbash_char alphabet) t)"
      using Cons.IH Cons.prems by simp
    finally show ?thesis using False by (simp add: atbash_char_def)
  qed
qed

lemma atbash_cipher_closed:
  assumes "\<forall>c\<in>set t. c \<in> set alphabet \<or> c = 32"
  shows "atbash_cipher t alphabet encrypt = Inr (map (atbash_char alphabet) t)"
  using assms atbash_loop_closed [OF assms, of "[]"]
  by (simp add: atbash_cipher_def validate_text_ok_iff [symmetric])

lemma atbash_char_mem:
  assumes "c \<in> set alphabet"
  shows "atbash_char alphabet c \<in> set alphabet \<or> atbash_char alphabet c = 32"
proof -
  have "first_pos alphabet c < length (rev alphabet)" using first_pos_mem(2) [OF assms] by simp
  then have "rev alphabet ! first_pos alphabet c \<in> set (rev alphabet)" by (rule nth_mem)
  then show ?thesis by (simp add: atbash_char_def)
qed

lemma atbash_char_inverse:
  assumes "distinct alphabet" and "32 \<notin> set alphabet" and "c \<in> set alphabet \<or> c = 32"
  shows "atbash_char alphabet (atbash_char alphabet c) = c"
proof (cases "c = 32")
  case True
  then show ?thesis by (simp add: atbash_char_def)
next
  case False
  with assms(3) have mem: "c \<in> set alphabet" by simp
  let ?i = "first_pos alphabet c"
  let ?m = "length alphabet - Suc ?i"
  have i: "?i < length alphabet" using first_pos_mem(2) [OF mem] .
  then have m: "?m < length alphabet" by simp
  have enc: "atbash_char alphabet c = alphabet ! ?m"
    using False i by (simp add: atbash_char_def rev_nth)
  have "alphabet ! ?m \<in> set alphabet" using m by simp
  with assms(2) have ne32: "alphabet ! ?m \<noteq> 32" by metis
  have "first_pos alphabet (alphabet ! ?m) = ?m" using first_pos_nth [OF assms(1) m] .
  then have "atbash_char alphabet (alphabet ! ?m) = alphabet ! (length alphabet - Suc ?m)"
    using ne32 m by (simp add: atbash_char_def rev_nth)
  also have "length alphabet - Suc ?m = ?i" using i by simp
  finally show ?thesis using enc first_pos_mem(3) [OF mem] by simp
qed

lemma valid_chars_iff:
  "set t \<subseteq> set alphabet \<union> {32} \<longleftrightarrow> (\<forall>c\<in>set t. c \<in> set alphabet \<or> c = 32)"
  by auto

lemma caesar_map_valid:
  assumes "alphabet \<noteq> []"
  shows "\<forall>d\<in>set (map (caesar_char alphabet key encrypt) t). d \<in> set alphabet \<or> d = 32"
proof -
  have "caesar_char alphabet key encrypt c \<in> set alphabet \<or> caesar_char alphabet key encrypt c = 32" for c
    using caesar_char_mem [OF assms, of c key encrypt] by (cases "c = 32") (simp_all add: caesar_char_def)
  then show ?thesis by simp
qed

lemma remove_spaces_id: "32 \<notin> set key \<Longrightarrow> remove_spaces key = key"
  by (auto simp: remove_spaces_def filter_id_conv)

lemma validate_text_first_bad:
  assumes "\<not> (\<forall>c\<in>set t. c \<in> set alphabet \<or> c = 32)"
  shows "\<exists>pre c post. t = pre @ c # post \<and> (\<forall>d\<in>set pre. d \<in> set alphabet \<or> d = 32)
           \<and> c \<notin> set alphabet \<and> c \<noteq> 32
           \<and> validate_text t alphabet = Inl (AlphabetError (CharNotFound c))"
  using assms
proof (induction t)
  case Nil
  then show ?case by simp
next
  case (Cons x t)
  show ?case
  proof (cases "x \<in> set alphabet \<or> x = 32")
    case True
    with Cons.prems have "\<not> (\<forall>c\<in>set t. c \<in> set alphabet \<or> c = 32)" by auto
    then obtain pre c post where h: "t = pre @ c # post"
      "\<forall>d\<in>set pre. d \<in> set alphabet \<or> d = 32" "c \<notin> set alphabet" "c \<noteq> 32"
      "validate_text t alphabet = Inl (AlphabetError (CharNotFound c))"
      using Cons.IH by blast
    have "x # t = (x # pre) @ c # post" using h(1) by simp
    moreover have "\<forall>d\<in>set (x # pre). d \<in> set alphabet \<or> d = 32" using True h(2) by auto
    moreover have "validate_text (x # t) alphabet = Inl (AlphabetError (CharNotFound c))"
      using True h(5) by auto
    ultimately show ?thesis using h(3,4) by blast
  next
    case False
    then have "x # t = [] @ x # t \<and> (\<forall>d\<in>set []. d \<in> set alphabet \<or> d = 32)
        \<and> x \<notin> set alphabet \<and> x \<noteq> 32
        \<and> validate_text (x # t) alphabet = Inl (AlphabetError (CharNotFound x))"
      by simp
    then show ?thesis by blast
  qed
qed

lemma validate_text_error:
  "validate_text t alphabet = Inl e \<Longrightarrow> isinstance_AlphabetError e \<and> isinstance_CipherError e"
  by (induction t) (auto split: if_splits)

lemma vigenere_closed_nth:
  assumes "alphabet \<noteq> []" and "key \<noteq> []" and "set key \<subseteq> set alphabet"
    and "c \<in> set alphabet" and "c \<noteq> 32"
  shows "\<exists>text_idx key_idx new_idx.
           str_index alphabet c = Inr text_idx
           \<and> str_index alphabet (key ! (p mod length key)) = Inr key_idx
           \<and> vigenere_new_idx text_idx key_idx (int (length alphabet)) encrypt = Inr new_idx
           \<and> getitem alphabet new_idx
               = Inr (caesar_char alphabet (vigenere_shift alphabet key p) encrypt c)"
proof -
  let ?n = "int (length alphabet)"
  let ?kc = "key ! (p mod length key)"
  let ?ti = "int (first_pos alphabet c)"
  let ?ki = "vigenere_shift alphabet key p"
  let ?j = "(?ti + (if encrypt then ?ki else - ?ki)) mod ?n"
  from assms(1) have n: "?n \<noteq> 0" "0 < ?n" by simp_all
  then have j: "0 \<le> ?j" "?j < ?n" by simp_all
  have "p mod length key < length key" using assms(2) by simp
  then have "?kc \<in> set key" by simp
  with assms(3) have kmem: "?kc \<in> set alphabet" by blast
  have "str_index alphabet c = Inr ?ti" using first_pos_mem(1) [OF assms(4)] .
  moreover have "str_index alphabet ?kc = Inr ?ki"
    using first_pos_mem(1) [OF kmem] by (simp add: vigenere_shift_def)
  moreover have "vigenere_new_idx ?ti ?ki ?n encrypt = Inr ?j"
    using vigenere_new_idx_eq [OF n(1)] .
  moreover have "getitem alphabet ?j = Inr (caesar_char alphabet ?ki encrypt c)"
    using getitem_nat [OF j] assms(5) by (simp add: caesar_char_def)
  ultimately show ?thesis by blast
qed

lemma atbash_map_valid:
  assumes "\<forall>c\<in>set t. c \<in> set alphabet \<or> c = 32"
  shows "\<forall>d\<in>set (map (atbash_char alphabet) t). d \<in> set alphabet \<or> d = 32"
proof -
  have "atbash_char alphabet c \<in> set alphabet \<or> atbash_char alphabet c = 32"
    if "c \<in> set alphabet \<or> c = 32" for c
    using that atbash_char_mem [of c alphabet] by (cases "c = 32") (simp_all add: atbash_char_def)
  with assms show ?thesis by simp
qed

lemma caesar_char_mod:
  "caesar_char alphabet (key mod int (length alphabet)) encrypt c = caesar_char alphabet key encrypt c"
  by (simp add: caesar_char_def mod_add_right_eq mod_diff_right_eq)

lemma caesar_char_space_iff:
  assumes "alphabet \<noteq> []" and "32 \<notin> set alphabet"
  shows "caesar_char alphabet key encrypt c = 32 \<longleftrightarrow> c = 32"
proof (cases "c = 32")
  case True
  then show ?thesis by (simp add: caesar_char_def)
next
  case False
  from caesar_char_mem [OF assms(1) False, of key encrypt] assms(2)
  have "caesar_char alphabet key encrypt c \<noteq> 32" by metis
  with False show ?thesis by simp
qed

lemma atbash_char_space_iff:
  assumes "32 \<notin> set alphabet" and "c \<in> set alphabet \<or> c = 32"
  shows "atbash_char alphabet c = 32 \<longleftrightarrow> c = 32"
proof (cases "c = 32")
  case True
  then show ?thesis by (simp add: atbash_char_def)
next
  case False
  with assms(2) have mem: "c \<in> set alphabet" by simp
  have "first_pos alphabet c < length (rev alphabet)" using first_pos_mem(2) [OF mem] by simp
  then have "rev alphabet ! first_pos alphabet c \<in> set (rev alphabet)" by (rule nth_mem)
  with assms(1) have "rev alphabet ! first_pos alphabet c \<noteq> 32" by auto
  with False show ?thesis by (simp add: atbash_char_def)
qed

lemma strip_decomp:
  "\<exists>pre post. s = pre @ strip s @ post \<and> list_all py_isspace pre \<and> list_all py_isspace post"
proof -
  let ?m = "dropWhile py_isspace s"
  let ?pre = "takeWhile py_isspace s"
  let ?post = "rev (takeWhile py_isspace (rev ?m))"
  have "rev (takeWhile py_isspace (rev ?m) @ dropWhile py_isspace (rev ?m)) = rev (rev ?m)"
    by (simp only: takeWhile_dropWhile_id)
  then have "rev (dropWhile py_isspace (rev ?m)) @ ?post = ?m"
    by (simp only: rev_append rev_rev_ident)
  then have m: "?m = strip s @ ?post" by (simp only: strip_def)
  have "s = ?pre @ ?m" by simp
  with m have "s = ?pre @ strip s @ ?post" by simp
  moreover have "list_all py_isspace ?pre" by (auto simp: list_all_iff dest: set_takeWhileD)
  moreover have "list_all py_isspace ?post" by (auto simp: list_all_iff dest: set_takeWhileD)
  ultimately show ?thesis by blast
qed

lemma strip_ends:
  assumes "strip s \<noteq> []"
  shows "\<not> py_isspace (hd (strip s))" and "\<not> py_isspace (last (strip s))"
proof -
  let ?m = "dropWhile py_isspace s"
  let ?d = "dropWhile py_isspace (rev ?m)"
  from assms have d: "?d \<noteq> []" by (simp add: strip_def)
  have m: "?m \<noteq> []"
  proof
    assume e: "?m = []"
    have "?d = []" unfolding e by simp
    with d show False by simp
  qed
  have "last (strip s) = hd ?d" using d by (simp add: strip_def last_rev)
  then show "\<not> py_isspace (last (strip s))" using hd_dropWhile [OF d] by simp
  have "last (takeWhile py_isspace (rev ?m) @ ?d) = last ?d" using d by (rule last_appendR)
  then have "last (rev ?m) = last ?d" by (simp only: takeWhile_dropWhile_id)
  then have "hd (strip s) = hd ?m" using d m by (simp add: strip_def hd_rev last_rev)
  then show "\<not> py_isspace (hd (strip s))" using hd_dropWhile [OF m] by simp
qed

section \<open>Properties of the ciphers\<close>

subsection \<open>Caesar: decrypting an encryption\<close>

text \<open>
  Claim C1, as amended. For every non-empty alphabet without repeated characters that does
  not contain the space character, every text whose characters are members of the
  alphabet or spaces, and every integer key, \<open>caesar_cipher\<close> encrypts the text, and
  decrypting the encryption with the same key and alphabet returns the text.
\<close>

theorem caesar_roundtrip:
  assumes "alphabet \<noteq> []" and "distinct alphabet" and "32 \<notin> set alphabet"
    and "set text \<subseteq> set alphabet \<union> {32}"
  shows "\<exists>enc. caesar_cipher text key alphabet True = Inr enc
           \<and> caesar_cipher enc key alphabet False = Inr text"
proof -
  let ?enc = "map (caesar_char alphabet key True) text"
  have valid: "\<forall>c\<in>set text. c \<in> set alphabet \<or> c = 32"
    using assms(4) by (simp only: valid_chars_iff)
  have e: "caesar_cipher text key alphabet True = Inr ?enc"
    using caesar_cipher_closed [OF assms(1) valid] .
  have "caesar_cipher ?enc key alphabet False = Inr (map (caesar_char alphabet key False) ?enc)"
    using caesar_cipher_closed [OF assms(1) caesar_map_valid [OF assms(1)]] .
  also have "map (caesar_char alphabet key False) ?enc = text"
    using valid caesar_char_inverse [OF assms(2,3)] by (simp add: map_idI)
  finally show ?thesis using e by blast
qed

text \<open>
  The shift \<open>-8\<close> over a six-letter alphabet, then back.
\<close>

theorem caesar_roundtrip_witness:
  "\<exists>enc. caesar_cipher (str ''fade'') (-8) (str ''abcdef'') True = Inr enc
         \<and> caesar_cipher enc (-8) (str ''abcdef'') False = Inr (str ''fade'')"
  using caesar_roundtrip [of "str ''abcdef''" "str ''fade''" "-8"]
  by (simp add: str_def)

text \<open>
  Without the condition on the space character the round trip fails. The file content
  \<open>a b\<close> is accepted by \<open>read_alphabet\<close>; with key 1 the letter \<open>a\<close> is encrypted to
  the space at position 1 of that alphabet, and decryption copies a space through.
\<close>

theorem caesar_roundtrip_counterexample:
  "read_alphabet [str ''alphabet.txt'' \<mapsto> str ''a b''] (str ''alphabet.txt'') = Inr (str ''a b'')
   \<and> str ''a b'' \<noteq> [] \<and> distinct (str ''a b'')
   \<and> set (str ''a'') \<subseteq> set (str ''a b'') \<union> {32}
   \<and> caesar_cipher (str ''a'') 1 (str ''a b'') True = Inr (str '' '')
   \<and> caesar_cipher (str '' '') 1 (str ''a b'') False = Inr (str '' '')
   \<and> str '' '' \<noteq> str ''a''"
  by (simp add: str_def read_alphabet_def strip_def py_isspace_def caesar_cipher_def
      caesar_new_idx_def py_mod_def getitem_def)

subsection \<open>Vigenere: decrypting an encryption\<close>

text \<open>
  Claim C2, as amended. For every non-empty alphabet without repeated characters that does
  not contain the space character, every text whose characters are members of the
  alphabet or spaces, and every non-empty key whose characters are members of the
  alphabet, \<open>vigenere_cipher\<close> encrypts the text, and decrypting the encryption with
  the same key and alphabet returns the text.
\<close>

theorem vigenere_roundtrip:
  assumes "alphabet \<noteq> []" and "distinct alphabet" and "32 \<notin> set alphabet"
    and "set text \<subseteq> set alphabet \<union> {32}"
    and "key \<noteq> []" and "set key \<subseteq> set alphabet"
  shows "\<exists>enc. vigenere_cipher text key alphabet True = Inr enc
           \<and> vigenere_cipher enc key alphabet False = Inr text"
proof -
  let ?enc = "vigenere_map alphabet key True 0 text"
  have valid: "\<forall>c\<in>set text. c \<in> set alphabet \<or> c = 32"
    using assms(4) by (simp only: valid_chars_iff)
  have kvalid: "\<forall>c\<in>set key. c \<in> set alphabet \<or> c = 32" using assms(6) by auto
  have "32 \<notin> set key" using assms(3,6) by auto
  then have k: "remove_spaces key = key" by (rule remove_spaces_id)
  with assms(5) have kne: "remove_spaces key \<noteq> []" by simp
  have e: "vigenere_cipher text key alphabet True = Inr ?enc"
    using vigenere_cipher_closed [OF assms(1) valid kvalid kne] k by simp
  have "vigenere_cipher ?enc key alphabet False = Inr (vigenere_map alphabet key False 0 ?enc)"
    using vigenere_cipher_closed [OF assms(1) vigenere_map_valid [OF assms(1)] kvalid kne] k
    by simp
  also have "vigenere_map alphabet key False 0 ?enc = text"
    using vigenere_map_inverse [OF assms(2,3) valid] .
  finally show ?thesis using e by blast
qed

text \<open>
  A text with a space, a two-letter key.
\<close>

theorem vigenere_roundtrip_witness:
  "\<exists>enc. vigenere_cipher (str ''ab cd'') (str ''ba'') (str ''abcdef'') True = Inr enc
         \<and> vigenere_cipher enc (str ''ba'') (str ''abcdef'') False = Inr (str ''ab cd'')"
  using vigenere_roundtrip [of "str ''abcdef''" "str ''ab cd''" "str ''ba''"]
  by (simp add: str_def)

text \<open>
  Over the alphabet \<open>a b\<close>, which contains a space, the letter \<open>b\<close> under the key
  \<open>b\<close> is encrypted to the space at position 1, and decryption copies a space through.
\<close>

theorem vigenere_roundtrip_counterexample:
  "read_alphabet [str ''alphabet.txt'' \<mapsto> str ''a b''] (str ''alphabet.txt'') = Inr (str ''a b'')
   \<and> str ''a b'' \<noteq> [] \<and> distinct (str ''a b'')
   \<and> set (str ''b'') \<subseteq> set (str ''a b'') \<union> {32}
   \<and> str ''b'' \<noteq> [] \<and> set (str ''b'') \<subseteq> set (str ''a b'')
   \<and> vigenere_cipher (str ''b'') (str ''b'') (str ''a b'') True = Inr (str '' '')
   \<and> vigenere_cipher (str '' '') (str ''b'') (str ''a b'') False = Inr (str '' '')
   \<and> str '' '' \<noteq> str ''b''"
  by (simp add: str_def read_alphabet_def strip_def py_isspace_def vigenere_cipher_def
      remove_spaces_def vigenere_new_idx_def py_mod_def getitem_def)

subsection \<open>Vigenere: the key position counts spaces\<close>

text \<open>
  Claim C3. With the alphabet \<open>abcdef\<close> and the key \<open>ba\<close>, encrypting \<open>ab cd\<close> returns
  \<open>bb ce\<close> and decrypting \<open>bb ce\<close> returns \<open>ab cd\<close>. In general, on a non-empty
  alphabet, a text and a key whose characters are members of the alphabet or spaces, and
  a key with at least one character that is not a space, the cipher returns a string of
  the length of the text; at a position \<open>p\<close> that holds a space it holds a space, and at
  any other position it holds the alphabet character at the index computed from the index
  of the text character and the index of the key character at \<open>p mod len(key)\<close>, the
  key being the one with its spaces removed and \<open>p\<close> counting every position of the
  text, spaces included.
\<close>

theorem vigenere_key_position:
  "vigenere_cipher (str ''ab cd'') (str ''ba'') (str ''abcdef'') True = Inr (str ''bb ce'')
   \<and> vigenere_cipher (str ''bb ce'') (str ''ba'') (str ''abcdef'') False = Inr (str ''ab cd'')
   \<and> (alphabet \<noteq> [] \<and> set text \<subseteq> set alphabet \<union> {32} \<and> set key \<subseteq> set alphabet \<union> {32}
        \<and> remove_spaces key \<noteq> [] \<longrightarrow>
       (\<exists>out. vigenere_cipher text key alphabet encrypt = Inr out \<and> length out = length text
          \<and> (\<forall>p<length text.
                if text ! p = 32 then out ! p = 32
                else \<exists>text_idx key_idx new_idx.
                  str_index alphabet (text ! p) = Inr text_idx
                  \<and> str_index alphabet (remove_spaces key ! (p mod length (remove_spaces key)))
                      = Inr key_idx
                  \<and> vigenere_new_idx text_idx key_idx (int (length alphabet)) encrypt = Inr new_idx
                  \<and> getitem alphabet new_idx = Inr (out ! p))))"
proof (intro conjI impI, goal_cases)
  case 1
  show ?case
    by (simp add: str_def vigenere_cipher_def remove_spaces_def vigenere_new_idx_def py_mod_def
        getitem_def)
next
  case 2
  show ?case
    by (simp add: str_def vigenere_cipher_def remove_spaces_def vigenere_new_idx_def py_mod_def
        getitem_def)
next
  case 3
  then have h: "alphabet \<noteq> []" "set text \<subseteq> set alphabet \<union> {32}"
    "set key \<subseteq> set alphabet \<union> {32}" "remove_spaces key \<noteq> []"
    by blast+
  let ?k = "remove_spaces key"
  let ?out = "vigenere_map alphabet ?k encrypt 0 text"
  have valid: "\<forall>c\<in>set text. c \<in> set alphabet \<or> c = 32"
    using h(2) by (simp only: valid_chars_iff)
  have kvalid: "\<forall>c\<in>set key. c \<in> set alphabet \<or> c = 32"
    using h(3) by (simp only: valid_chars_iff)
  have ksub: "set ?k \<subseteq> set alphabet" using remove_spaces_valid [OF kvalid] .
  have e: "vigenere_cipher text key alphabet encrypt = Inr ?out"
    using vigenere_cipher_closed [OF h(1) valid kvalid h(4)] .
  have len: "length ?out = length text" by (rule vigenere_map_length)
  have "if text ! p = 32 then ?out ! p = 32
        else \<exists>text_idx key_idx new_idx.
                str_index alphabet (text ! p) = Inr text_idx
                \<and> str_index alphabet (?k ! (p mod length ?k)) = Inr key_idx
                \<and> vigenere_new_idx text_idx key_idx (int (length alphabet)) encrypt = Inr new_idx
                \<and> getitem alphabet new_idx = Inr (?out ! p)"
    if p: "p < length text" for p
  proof (cases "text ! p = 32")
    case True
    then show ?thesis using p by (simp add: vigenere_map_nth caesar_char_def)
  next
    case False
    have "text ! p \<in> set text" using p by simp
    with valid False have mem: "text ! p \<in> set alphabet" by blast
    have nth: "?out ! p = caesar_char alphabet (vigenere_shift alphabet ?k p) encrypt (text ! p)"
      using vigenere_map_nth [OF p, of alphabet ?k encrypt 0] by simp
    show ?thesis
      using vigenere_closed_nth [OF h(1) h(4) ksub mem False, of p encrypt] False
      unfolding nth by simp
  qed
  then have allp: "\<forall>p<length text. if text ! p = 32 then ?out ! p = 32
        else \<exists>text_idx key_idx new_idx.
                str_index alphabet (text ! p) = Inr text_idx
                \<and> str_index alphabet (?k ! (p mod length ?k)) = Inr key_idx
                \<and> vigenere_new_idx text_idx key_idx (int (length alphabet)) encrypt = Inr new_idx
                \<and> getitem alphabet new_idx = Inr (?out ! p)"
    by (intro allI impI)
  from e len allp show ?case by (intro exI [of _ ?out] conjI)
qed

text \<open>
  A key with a space in it, and a text with a space at position 1.
\<close>

theorem vigenere_key_position_witness:
  "\<exists>out. vigenere_cipher (str ''d e'') (str ''c a'') (str ''abcdef'') True = Inr out
         \<and> length out = 3 \<and> out ! 1 = 32"
proof -
  have h: "str ''abcdef'' \<noteq> [] \<and> set (str ''d e'') \<subseteq> set (str ''abcdef'') \<union> {32}
      \<and> set (str ''c a'') \<subseteq> set (str ''abcdef'') \<union> {32} \<and> remove_spaces (str ''c a'') \<noteq> []"
    by (simp add: str_def remove_spaces_def)
  have p: "(1::nat) < length (str ''d e'')" "str ''d e'' ! 1 = 32" by (simp_all add: str_def)
  from vigenere_key_position [of "str ''abcdef''" "str ''d e''" "str ''c a''" True] h
  obtain out where o: "vigenere_cipher (str ''d e'') (str ''c a'') (str ''abcdef'') True = Inr out"
    "length out = length (str ''d e'')"
    "\<forall>p<length (str ''d e'').
                if str ''d e'' ! p = 32 then out ! p = 32
                else \<exists>text_idx key_idx new_idx.
                  str_index (str ''abcdef'') (str ''d e'' ! p) = Inr text_idx
                  \<and> str_index (str ''abcdef'') (remove_spaces (str ''c a'') ! (p mod length (remove_spaces (str ''c a''))))
                      = Inr key_idx
                  \<and> vigenere_new_idx text_idx key_idx (int (length (str ''abcdef''))) True = Inr new_idx
                  \<and> getitem (str ''abcdef'') new_idx = Inr (out ! p)"
    by blast
  have "out ! 1 = 32" using o(3) [rule_format, of 1] p by simp
  moreover have "length out = 3" using o(2) by (simp add: str_def)
  ultimately show ?thesis using o(1) by blast
qed

subsection \<open>Atbash: an involution that ignores the mode\<close>

text \<open>
  Claim C4, as amended. For every text and alphabet, \<open>atbash_cipher\<close> returns the same
  result (or fails the same way) with \<open>encrypt=True\<close> and with \<open>encrypt=False\<close>. For every
  non-empty alphabet without repeated characters that does not contain the space
  character and every text whose characters are members of the alphabet or spaces,
  applying \<open>atbash_cipher\<close> twice, in any modes, returns the text.
\<close>

theorem atbash_involution:
  "atbash_cipher text alphabet True = atbash_cipher text alphabet False
   \<and> (alphabet \<noteq> [] \<and> distinct alphabet \<and> 32 \<notin> set alphabet
        \<and> set text \<subseteq> set alphabet \<union> {32} \<longrightarrow>
       (\<exists>enc. atbash_cipher text alphabet encrypt = Inr enc
          \<and> atbash_cipher enc alphabet encrypt' = Inr text))"
proof (intro conjI impI, goal_cases)
  case 1
  show ?case by (simp add: atbash_cipher_def)
next
  case 2
  then have h: "distinct alphabet" "32 \<notin> set alphabet" "set text \<subseteq> set alphabet \<union> {32}"
    by blast+
  let ?enc = "map (atbash_char alphabet) text"
  have valid: "\<forall>c\<in>set text. c \<in> set alphabet \<or> c = 32"
    using h(3) by (simp only: valid_chars_iff)
  have e: "atbash_cipher text alphabet encrypt = Inr ?enc"
    using atbash_cipher_closed [OF valid] .
  have "atbash_cipher ?enc alphabet encrypt' = Inr (map (atbash_char alphabet) ?enc)"
    using atbash_cipher_closed [OF atbash_map_valid [OF valid]] .
  also have "map (atbash_char alphabet) ?enc = text"
    using valid atbash_char_inverse [OF h(1,2)] by (simp add: map_idI)
  finally show ?case using e by blast
qed

text \<open>
  A text with a space over a six-letter alphabet.
\<close>

theorem atbash_involution_witness:
  "\<exists>enc. atbash_cipher (str ''bad cafe'') (str ''abcdef'') True = Inr enc
         \<and> atbash_cipher enc (str ''abcdef'') False = Inr (str ''bad cafe'')"
  using atbash_involution [of "str ''bad cafe''" "str ''abcdef''" True False, THEN conjunct2]
  by (simp add: str_def)

text \<open>
  The file content \<open>ab c\<close> is accepted by \<open>read_alphabet\<close>. Its reverse holds the space
  at position 1, so \<open>b\<close> is mapped to a space, and a space is copied through.
\<close>

theorem atbash_involution_counterexample:
  "read_alphabet [str ''alphabet.txt'' \<mapsto> str ''ab c''] (str ''alphabet.txt'') = Inr (str ''ab c'')
   \<and> str ''ab c'' \<noteq> [] \<and> distinct (str ''ab c'')
   \<and> set (str ''b'') \<subseteq> set (str ''ab c'') \<union> {32}
   \<and> atbash_cipher (str ''b'') (str ''ab c'') True = Inr (str '' '')
   \<and> atbash_cipher (str '' '') (str ''ab c'') False = Inr (str '' '')
   \<and> str '' '' \<noteq> str ''b''"
  by (simp add: str_def read_alphabet_def strip_def py_isspace_def atbash_cipher_def getitem_def)

subsection \<open>Vigenere: the empty key\<close>

text \<open>
  Claim C5, as amended. With the empty string as key, for every alphabet and either mode:
  on a text whose characters are all members of the alphabet or spaces,
  \<open>vigenere_cipher\<close> fails with \<open>CipherError\<close>, which is not an \<open>AlphabetError\<close>; on
  any other text it fails with the \<open>AlphabetError\<close> that names the first character of the
  text that is neither in the alphabet nor a space, since the text is validated before
  the key is looked at. In both cases nothing is returned, and the exception is an instance
  of \<open>CipherError\<close>, of which \<open>AlphabetError\<close> is a subclass.
\<close>

theorem vigenere_empty_key:
  "(set text \<subseteq> set alphabet \<union> {32} \<longrightarrow>
      vigenere_cipher text [] alphabet encrypt = Inl (CipherError EmptyKey))
   \<and> \<not> isinstance_AlphabetError (CipherError EmptyKey)
   \<and> isinstance_CipherError (CipherError EmptyKey)
   \<and> (\<not> set text \<subseteq> set alphabet \<union> {32} \<longrightarrow>
      (\<exists>pre c post. text = pre @ c # post \<and> set pre \<subseteq> set alphabet \<union> {32}
         \<and> c \<notin> set alphabet \<and> c \<noteq> 32
         \<and> vigenere_cipher text [] alphabet encrypt = Inl (AlphabetError (CharNotFound c))))
   \<and> (\<exists>e. vigenere_cipher text [] alphabet encrypt = Inl e \<and> isinstance_CipherError e)"
proof (intro conjI impI, goal_cases)
  case 1
  then have "validate_text text alphabet = Inr ()"
    by (simp only: validate_text_ok_iff valid_chars_iff)
  then show ?case by (simp add: vigenere_cipher_def)
next
  case 2
  show ?case by simp
next
  case 3
  show ?case by simp
next
  case 4
  then have "\<not> (\<forall>c\<in>set text. c \<in> set alphabet \<or> c = 32)"
    unfolding valid_chars_iff .
  from validate_text_first_bad [OF this]
  obtain pre c post where h: "text = pre @ c # post"
    "\<forall>d\<in>set pre. d \<in> set alphabet \<or> d = 32" "c \<notin> set alphabet" "c \<noteq> 32"
    "validate_text text alphabet = Inl (AlphabetError (CharNotFound c))"
    by blast
  have "set pre \<subseteq> set alphabet \<union> {32}" using h(2) by (simp only: valid_chars_iff)
  moreover have "vigenere_cipher text [] alphabet encrypt = Inl (AlphabetError (CharNotFound c))"
    using h(5) by (simp add: vigenere_cipher_def)
  ultimately show ?case using h(1,3,4) by blast
next
  case 5
  show ?case
  proof (cases "validate_text text alphabet")
    case (Inl e)
    then have "isinstance_CipherError e" using validate_text_error by blast
    with Inl show ?thesis by (simp add: vigenere_cipher_def)
  next
    case (Inr u)
    then show ?thesis by (simp add: vigenere_cipher_def)
  qed
qed

text \<open>
  A valid text, the empty text over the empty alphabet, and a text with two characters
  outside the alphabet.
\<close>

theorem vigenere_empty_key_witness:
  "vigenere_cipher (str ''ab cd'') [] (str ''abcdef'') True = Inl (CipherError EmptyKey)
   \<and> vigenere_cipher [] [] [] False = Inl (CipherError EmptyKey)
   \<and> (\<exists>c. vigenere_cipher (str ''abxy'') [] (str ''abcdef'') True
            = Inl (AlphabetError (CharNotFound c)))"
  using vigenere_empty_key [of "str ''ab cd''" "str ''abcdef''" True]
    vigenere_empty_key [of "[]" "[]" False]
    vigenere_empty_key [of "str ''abxy''" "str ''abcdef''" True]
  by (auto simp: str_def)

text \<open>
  The text \<open>x\<close> over the alphabet \<open>abc\<close>: the failure is the \<open>AlphabetError\<close> of the
  validation, not the \<open>CipherError\<close> of the empty key.
\<close>

theorem vigenere_empty_key_counterexample:
  "vigenere_cipher (str ''x'') [] (str ''abc'') True
     = Inl (AlphabetError (CharNotFound (of_char CHR ''x'')))
   \<and> isinstance_AlphabetError (AlphabetError (CharNotFound (of_char CHR ''x'')))
   \<and> AlphabetError (CharNotFound (of_char CHR ''x'')) \<noteq> CipherError EmptyKey"
  by (simp add: str_def vigenere_cipher_def)

subsection \<open>Vigenere: a key of spaces\<close>

text \<open>
  Claim C6, as amended. For every non-empty key that consists of spaces only, and every
  text whose characters are all members of the alphabet or spaces and that contains at
  least one character of the alphabet that is not a space: the key passes validation and
  the emptiness check, removing the spaces leaves the empty key, and
  \<open>vigenere_cipher\<close> ends with \<open>ZeroDivisionError\<close>, which is not a \<open>CipherError\<close>.
\<close>

theorem vigenere_blank_key:
  assumes "key \<noteq> []" and "set key \<subseteq> {32}"
    and "set text \<subseteq> set alphabet \<union> {32}" and "set text \<inter> (set alphabet - {32}) \<noteq> {}"
  shows "validate_text key alphabet = Inr () \<and> remove_spaces key = []
         \<and> vigenere_cipher text key alphabet encrypt = Inl ZeroDivisionError
         \<and> \<not> isinstance_CipherError ZeroDivisionError"
proof -
  have valid: "\<forall>c\<in>set text. c \<in> set alphabet \<or> c = 32"
    using assms(3) by (simp only: valid_chars_iff)
  have kvalid: "\<forall>c\<in>set key. c \<in> set alphabet \<or> c = 32" using assms(2) by auto
  have k: "validate_text key alphabet = Inr ()" using kvalid by (simp add: validate_text_ok_iff)
  have t: "validate_text text alphabet = Inr ()" using valid by (simp add: validate_text_ok_iff)
  have r: "remove_spaces key = []" using assms(2) by (auto simp: remove_spaces_def filter_empty_conv)
  have "\<exists>c\<in>set text. c \<noteq> 32" using assms(4) by auto
  from vigenere_loop_empty_key [OF valid this]
  have "vigenere_cipher text key alphabet encrypt = Inl ZeroDivisionError"
    using k t r assms(1) by (simp add: vigenere_cipher_def)
  then show ?thesis using k r by simp
qed

text \<open>
  A key of two spaces and a text that starts with a space.
\<close>

theorem vigenere_blank_key_witness:
  "validate_text (str ''  '') (str ''abc'') = Inr () \<and> remove_spaces (str ''  '') = []
   \<and> vigenere_cipher (str '' a c'') (str ''  '') (str ''abc'') False = Inl ZeroDivisionError
   \<and> \<not> isinstance_CipherError ZeroDivisionError"
  using vigenere_blank_key [of "str ''  ''" "str '' a c''" "str ''abc''" False]
  by (simp add: str_def)

text \<open>
  The text \<open>ax\<close> contains the alphabet character \<open>a\<close>, and also \<open>x\<close>, which the
  validation of the text rejects before the key is used.
\<close>

theorem vigenere_blank_key_counterexample:
  "str '' '' \<noteq> [] \<and> set (str '' '') \<subseteq> {32}
   \<and> set (str ''ax'') \<inter> (set (str ''abc'') - {32}) \<noteq> {}
   \<and> vigenere_cipher (str ''ax'') (str '' '') (str ''abc'') True
       = Inl (AlphabetError (CharNotFound (of_char CHR ''x'')))
   \<and> AlphabetError (CharNotFound (of_char CHR ''x'')) \<noteq> ZeroDivisionError"
  by (simp add: str_def vigenere_cipher_def)

subsection \<open>Caesar: any integer key\<close>

text \<open>
  Claim C7. For every non-empty alphabet without repeated characters, of length \<open>n\<close>,
  every text whose characters are members of the alphabet or spaces, either mode and
  every integer key: \<open>caesar_cipher\<close> returns a string; for every character of the text
  that is not a space, the index the loop computes lies in \<open>[0, n)\<close>; and the result is
  the result for the key \<open>key mod n\<close>.
\<close>

theorem caesar_any_key:
  assumes "alphabet \<noteq> []" and "distinct alphabet" and "set text \<subseteq> set alphabet \<union> {32}"
  shows "(\<exists>out. caesar_cipher text key alphabet encrypt = Inr out)
         \<and> (\<forall>c\<in>set text. c \<noteq> 32 \<longrightarrow>
               (\<exists>idx new_idx. str_index alphabet c = Inr idx
                  \<and> caesar_new_idx idx key (int (length alphabet)) encrypt = Inr new_idx
                  \<and> 0 \<le> new_idx \<and> new_idx < int (length alphabet)))
         \<and> caesar_cipher text key alphabet encrypt
             = caesar_cipher text (key mod int (length alphabet)) alphabet encrypt"
proof (intro conjI ballI impI)
  let ?n = "int (length alphabet)"
  have valid: "\<forall>c\<in>set text. c \<in> set alphabet \<or> c = 32"
    using assms(3) by (simp only: valid_chars_iff)
  from assms(1) have n: "?n \<noteq> 0" "0 < ?n" by simp_all
  show "\<exists>out. caesar_cipher text key alphabet encrypt = Inr out"
    using caesar_cipher_closed [OF assms(1) valid] by blast
  show "caesar_cipher text key alphabet encrypt = caesar_cipher text (key mod ?n) alphabet encrypt"
    using caesar_cipher_closed [OF assms(1) valid] by (simp add: caesar_char_mod)
  fix c
  assume c: "c \<in> set text" "c \<noteq> 32"
  with valid have mem: "c \<in> set alphabet" by blast
  let ?j = "(int (first_pos alphabet c) + (if encrypt then key else - key)) mod ?n"
  have "str_index alphabet c = Inr (int (first_pos alphabet c))"
    using first_pos_mem(1) [OF mem] .
  moreover have "caesar_new_idx (int (first_pos alphabet c)) key ?n encrypt = Inr ?j"
    using caesar_new_idx_eq [OF n(1)] .
  moreover have "0 \<le> ?j" "?j < ?n" using n(2) by simp_all
  ultimately show "\<exists>idx new_idx. str_index alphabet c = Inr idx
                  \<and> caesar_new_idx idx key ?n encrypt = Inr new_idx
                  \<and> 0 \<le> new_idx \<and> new_idx < ?n"
    by blast
qed

text \<open>
  The key \<open>-100\<close> over six letters is the key 2.
\<close>

theorem caesar_any_key_witness:
  "(\<exists>out. caesar_cipher (str ''ace'') (- 100) (str ''abcdef'') True = Inr out)
   \<and> caesar_cipher (str ''ace'') (- 100) (str ''abcdef'') True
       = caesar_cipher (str ''ace'') 2 (str ''abcdef'') True
   \<and> caesar_cipher (str ''ace'') 2 (str ''abcdef'') True = Inr (str ''cea'')"
proof -
  have h: "str ''abcdef'' \<noteq> []" "distinct (str ''abcdef'')"
    "set (str ''ace'') \<subseteq> set (str ''abcdef'') \<union> {32}"
    by (simp_all add: str_def)
  have m: "(- 100) mod int (length (str ''abcdef'')) = 2" by (simp add: str_def)
  have "caesar_cipher (str ''ace'') 2 (str ''abcdef'') True = Inr (str ''cea'')"
    by (simp add: str_def caesar_cipher_def caesar_new_idx_def py_mod_def getitem_def)
  then show ?thesis using caesar_any_key [OF h, of "- 100" True] unfolding m by simp
qed

subsection \<open>Loading the alphabet\<close>

text \<open>
  Claim C8. \<open>read_alphabet\<close> fails with \<open>FileNotFoundError\<close> when there is no file at the
  path; with \<open>AlphabetError\<close> when the content of the file, stripped of the whitespace
  at both ends, is empty, or repeats a character (as \<open>aab\<close> does); and returns the stripped
  content otherwise. What it returns is non-empty, has no repeated character, is the
  content of the file with only whitespace removed before and after it, neither starts
  nor ends with whitespace, and \<open>index\<close> finds each of its characters at that character's
  own position.
\<close>

theorem read_alphabet_result:
  "(fs filepath = None \<longrightarrow>
      read_alphabet fs filepath = Inl (FileNotFoundError (AlphabetFileNotFound filepath)))
   \<and> (fs filepath = Some content \<longrightarrow>
        (strip content = [] \<longrightarrow> read_alphabet fs filepath = Inl (AlphabetError EmptyAlphabet))
        \<and> (strip content \<noteq> [] \<and> \<not> distinct (strip content) \<longrightarrow>
             read_alphabet fs filepath = Inl (AlphabetError DuplicateChars))
        \<and> (strip content \<noteq> [] \<and> distinct (strip content) \<longrightarrow>
             read_alphabet fs filepath = Inr (strip content)))
   \<and> (read_alphabet fs filepath = Inr alphabet \<longrightarrow>
        alphabet \<noteq> [] \<and> distinct alphabet
        \<and> (\<exists>content pre post. fs filepath = Some content \<and> content = pre @ alphabet @ post
              \<and> list_all py_isspace pre \<and> list_all py_isspace post
              \<and> \<not> py_isspace (hd alphabet) \<and> \<not> py_isspace (last alphabet))
        \<and> (\<forall>i<length alphabet. str_index alphabet (alphabet ! i) = Inr (int i)))
   \<and> read_alphabet [filepath \<mapsto> str ''aab''] filepath = Inl (AlphabetError DuplicateChars)
   \<and> read_alphabet [filepath \<mapsto> []] filepath = Inl (AlphabetError EmptyAlphabet)"
proof (intro conjI impI, goal_cases)
  case 1
  then show ?case by (simp add: read_alphabet_def)
next
  case 2
  then show ?case by (simp add: read_alphabet_def)
next
  case 3
  then have "length (strip content) \<noteq> card (set (strip content))"
    using card_distinct [of "strip content"] by metis
  with 3 show ?case by (simp add: read_alphabet_def)
next
  case 4
  then have "length (strip content) = card (set (strip content))"
    by (simp add: distinct_card)
  with 4 show ?case by (simp add: read_alphabet_def)
next
  case 5
  then show ?case by (auto simp: read_alphabet_def Let_def split: option.splits if_splits)
next
  case 6
  then have "length alphabet = card (set alphabet)"
    by (auto simp: read_alphabet_def Let_def split: option.splits if_splits)
  then show ?case by (simp add: card_distinct)
next
  case 7
  then obtain content where c: "fs filepath = Some content" "alphabet = strip content"
    "strip content \<noteq> []"
    by (auto simp: read_alphabet_def Let_def split: option.splits if_splits)
  from strip_decomp [of content] obtain pre post where
    "content = pre @ strip content @ post" "list_all py_isspace pre" "list_all py_isspace post"
    by blast
  then show ?case using c strip_ends [OF c(3)] by blast
next
  case 8
  then have "length alphabet = card (set alphabet)"
    by (auto simp: read_alphabet_def Let_def split: option.splits if_splits)
  then have "distinct alphabet" by (simp add: card_distinct)
  then show ?case by (simp add: str_index_nth)
next
  case 9
  show ?case by (simp add: read_alphabet_def str_def strip_def py_isspace_def)
next
  case 10
  show ?case by (simp add: read_alphabet_def strip_def)
qed

text \<open>
  A file with spaces around six letters, a missing file, a repeated letter, a blank file.
\<close>

theorem read_alphabet_result_witness:
  "read_alphabet [str ''abc.txt'' \<mapsto> str ''  fabdec ''] (str ''abc.txt'') = Inr (str ''fabdec'')
   \<and> str_index (str ''fabdec'') (str ''fabdec'' ! 3) = Inr 3
   \<and> read_alphabet [str ''abc.txt'' \<mapsto> str ''  fabdec ''] (str ''nothing.txt'')
        = Inl (FileNotFoundError (AlphabetFileNotFound (str ''nothing.txt'')))
   \<and> read_alphabet [str ''abc.txt'' \<mapsto> str ''fabdeca''] (str ''abc.txt'')
        = Inl (AlphabetError DuplicateChars)
   \<and> read_alphabet [str ''abc.txt'' \<mapsto> str ''   ''] (str ''abc.txt'')
        = Inl (AlphabetError EmptyAlphabet)"
proof -
  let ?fs = "[str ''abc.txt'' \<mapsto> str ''  fabdec '']"
  have s: "strip (str ''  fabdec '') = str ''fabdec''"
    by (simp add: str_def strip_def py_isspace_def)
  have f: "?fs (str ''abc.txt'') = Some (str ''  fabdec '')" by simp
  have d: "strip (str ''  fabdec '') \<noteq> [] \<and> distinct (strip (str ''  fabdec ''))"
    unfolding s by (simp add: str_def)
  have r: "read_alphabet ?fs (str ''abc.txt'') = Inr (str ''fabdec'')"
    using read_alphabet_result [of ?fs "str ''abc.txt''" "str ''  fabdec ''",
        THEN conjunct2, THEN conjunct1, rule_format, OF f,
        THEN conjunct2, THEN conjunct2, rule_format, OF d]
    unfolding s .
  have l: "(3::nat) < length (str ''fabdec'')" by (simp add: str_def)
  have i: "str_index (str ''fabdec'') (str ''fabdec'' ! 3) = Inr 3"
    using read_alphabet_result [of ?fs "str ''abc.txt''" _ "str ''fabdec''",
        THEN conjunct2, THEN conjunct2, THEN conjunct1, rule_format, OF r,
        THEN conjunct2, THEN conjunct2, THEN conjunct2, rule_format, OF l]
    by simp
  have "?fs (str ''nothing.txt'') = None" by (simp add: str_def)
  then have n: "read_alphabet ?fs (str ''nothing.txt'')
        = Inl (FileNotFoundError (AlphabetFileNotFound (str ''nothing.txt'')))"
    by (rule read_alphabet_result [THEN conjunct1, rule_format])
  let ?fd = "[str ''abc.txt'' \<mapsto> str ''fabdeca'']"
  have fd: "?fd (str ''abc.txt'') = Some (str ''fabdeca'')" by simp
  have dd: "strip (str ''fabdeca'') \<noteq> [] \<and> \<not> distinct (strip (str ''fabdeca''))"
    by (simp add: str_def strip_def py_isspace_def)
  have dup: "read_alphabet ?fd (str ''abc.txt'') = Inl (AlphabetError DuplicateChars)"
    using read_alphabet_result [of ?fd "str ''abc.txt''" "str ''fabdeca''",
        THEN conjunct2, THEN conjunct1, rule_format, OF fd,
        THEN conjunct2, THEN conjunct1, rule_format, OF dd] .
  let ?fe = "[str ''abc.txt'' \<mapsto> str ''   '']"
  have fe: "?fe (str ''abc.txt'') = Some (str ''   '')" by simp
  have de: "strip (str ''   '') = []" by (simp add: str_def strip_def py_isspace_def)
  have emp: "read_alphabet ?fe (str ''abc.txt'') = Inl (AlphabetError EmptyAlphabet)"
    using read_alphabet_result [of ?fe "str ''abc.txt''" "str ''   ''",
        THEN conjunct2, THEN conjunct1, rule_format, OF fe,
        THEN conjunct1, rule_format, OF de] .
  from r i n dup emp show ?thesis by (intro conjI)
qed

subsection \<open>Validating a text\<close>

text \<open>
  Claim C9. \<open>validate_text\<close> succeeds exactly when every character of the text is a
  member of the alphabet or the space. Otherwise it raises the \<open>AlphabetError\<close> whose
  message is built from the first character, from the left, that is neither: every
  character before it is a member of the alphabet or a space. \<open>validate_text("xyz",
  "abc")\<close> fails naming \<open>x\<close>, and \<open>validate_text("a b c", "abc")\<close> succeeds.
\<close>

theorem validate_text_fail_fast:
  "(validate_text text alphabet = Inr () \<longleftrightarrow> set text \<subseteq> set alphabet \<union> {32})
   \<and> (\<not> set text \<subseteq> set alphabet \<union> {32} \<longrightarrow>
        (\<exists>pre c post. text = pre @ c # post \<and> set pre \<subseteq> set alphabet \<union> {32}
           \<and> c \<notin> set alphabet \<and> c \<noteq> 32
           \<and> validate_text text alphabet = Inl (AlphabetError (CharNotFound c))))
   \<and> validate_text (str ''xyz'') (str ''abc'') = Inl (AlphabetError (CharNotFound (of_char CHR ''x'')))
   \<and> validate_text (str ''a b c'') (str ''abc'') = Inr ()"
proof (intro conjI impI, goal_cases)
  case 1
  show ?case by (simp only: validate_text_ok_iff valid_chars_iff)
next
  case 2
  then have "\<not> (\<forall>c\<in>set text. c \<in> set alphabet \<or> c = 32)"
    unfolding valid_chars_iff .
  from validate_text_first_bad [OF this]
  obtain pre c post where h: "text = pre @ c # post"
    "\<forall>d\<in>set pre. d \<in> set alphabet \<or> d = 32" "c \<notin> set alphabet" "c \<noteq> 32"
    "validate_text text alphabet = Inl (AlphabetError (CharNotFound c))"
    by blast
  have "set pre \<subseteq> set alphabet \<union> {32}" using h(2) by (simp only: valid_chars_iff)
  then show ?case using h(1,3,4,5) by blast
next
  case 3
  show ?case by (simp add: str_def)
next
  case 4
  show ?case by (simp add: str_def)
qed

text \<open>
  A valid text, and a text whose first offending character is followed by more.
\<close>

theorem validate_text_fail_fast_witness:
  "validate_text (str ''ab cd'') (str ''abcdef'') = Inr ()
   \<and> (\<exists>pre c post. str ''abxay'' = pre @ c # post \<and> set pre \<subseteq> set (str ''abcdef'') \<union> {32}
         \<and> c \<notin> set (str ''abcdef'') \<and> c \<noteq> 32
         \<and> validate_text (str ''abxay'') (str ''abcdef'') = Inl (AlphabetError (CharNotFound c)))"
proof -
  have a: "set (str ''ab cd'') \<subseteq> set (str ''abcdef'') \<union> {32}" by (simp add: str_def)
  have b: "\<not> set (str ''abxay'') \<subseteq> set (str ''abcdef'') \<union> {32}" by (simp add: str_def)
  show ?thesis
    using validate_text_fail_fast [of "str ''ab cd''" "str ''abcdef''"] a
      validate_text_fail_fast [of "str ''abxay''" "str ''abcdef''"] b
    by blast
qed

subsection \<open>The shape of the result\<close>

text \<open>
  Claim C10, as amended. For every non-empty alphabet without repeated characters that
  does not contain the space character, every text whose characters are members of the
  alphabet or spaces, every integer Caesar key, every Vigenere key whose characters are
  members of the alphabet or spaces and that has at least one character that is not a
  space, and either mode: each of \<open>caesar_cipher\<close>, \<open>vigenere_cipher\<close> and
  \<open>atbash_cipher\<close> returns a string of the length of the text, with a space exactly at
  the positions where the text has one, whose other characters are members of the
  alphabet.
\<close>

theorem ciphers_keep_shape:
  assumes "alphabet \<noteq> []" and "distinct alphabet" and "32 \<notin> set alphabet"
    and "set text \<subseteq> set alphabet \<union> {32}"
    and "set vkey \<subseteq> set alphabet \<union> {32}" and "remove_spaces vkey \<noteq> []"
  shows "(\<exists>out. caesar_cipher text ckey alphabet encrypt = Inr out
            \<and> length out = length text
            \<and> (\<forall>p<length text. (out ! p = 32) = (text ! p = 32))
            \<and> (\<forall>d\<in>set out. d \<noteq> 32 \<longrightarrow> d \<in> set alphabet))
         \<and> (\<exists>out. vigenere_cipher text vkey alphabet encrypt = Inr out
            \<and> length out = length text
            \<and> (\<forall>p<length text. (out ! p = 32) = (text ! p = 32))
            \<and> (\<forall>d\<in>set out. d \<noteq> 32 \<longrightarrow> d \<in> set alphabet))
         \<and> (\<exists>out. atbash_cipher text alphabet encrypt = Inr out
            \<and> length out = length text
            \<and> (\<forall>p<length text. (out ! p = 32) = (text ! p = 32))
            \<and> (\<forall>d\<in>set out. d \<noteq> 32 \<longrightarrow> d \<in> set alphabet))"
proof (intro conjI)
  have valid: "\<forall>c\<in>set text. c \<in> set alphabet \<or> c = 32"
    using assms(4) by (simp only: valid_chars_iff)
  have kvalid: "\<forall>c\<in>set vkey. c \<in> set alphabet \<or> c = 32"
    using assms(5) by (simp only: valid_chars_iff)
  show "\<exists>out. caesar_cipher text ckey alphabet encrypt = Inr out
            \<and> length out = length text
            \<and> (\<forall>p<length text. (out ! p = 32) = (text ! p = 32))
            \<and> (\<forall>d\<in>set out. d \<noteq> 32 \<longrightarrow> d \<in> set alphabet)"
  proof (intro exI conjI)
    let ?out = "map (caesar_char alphabet ckey encrypt) text"
    show "caesar_cipher text ckey alphabet encrypt = Inr ?out"
      using caesar_cipher_closed [OF assms(1) valid] .
    show "length ?out = length text" by simp
    show "\<forall>p<length text. (?out ! p = 32) = (text ! p = 32)"
      using caesar_char_space_iff [OF assms(1,3)] by simp
    show "\<forall>d\<in>set ?out. d \<noteq> 32 \<longrightarrow> d \<in> set alphabet"
      using caesar_map_valid [OF assms(1), of ckey encrypt "text"] by blast
  qed
  show "\<exists>out. vigenere_cipher text vkey alphabet encrypt = Inr out
            \<and> length out = length text
            \<and> (\<forall>p<length text. (out ! p = 32) = (text ! p = 32))
            \<and> (\<forall>d\<in>set out. d \<noteq> 32 \<longrightarrow> d \<in> set alphabet)"
  proof (intro exI conjI)
    let ?out = "vigenere_map alphabet (remove_spaces vkey) encrypt 0 text"
    show "vigenere_cipher text vkey alphabet encrypt = Inr ?out"
      using vigenere_cipher_closed [OF assms(1) valid kvalid assms(6)] .
    show "length ?out = length text" by (rule vigenere_map_length)
    show "\<forall>p<length text. (?out ! p = 32) = (text ! p = 32)"
      using caesar_char_space_iff [OF assms(1,3)] by (simp add: vigenere_map_nth)
    show "\<forall>d\<in>set ?out. d \<noteq> 32 \<longrightarrow> d \<in> set alphabet"
      using vigenere_map_valid [OF assms(1), of "remove_spaces vkey" encrypt 0 "text"] by blast
  qed
  show "\<exists>out. atbash_cipher text alphabet encrypt = Inr out
            \<and> length out = length text
            \<and> (\<forall>p<length text. (out ! p = 32) = (text ! p = 32))
            \<and> (\<forall>d\<in>set out. d \<noteq> 32 \<longrightarrow> d \<in> set alphabet)"
  proof (intro exI conjI)
    let ?out = "map (atbash_char alphabet) text"
    show "atbash_cipher text alphabet encrypt = Inr ?out"
      using atbash_cipher_closed [OF valid] .
    show "length ?out = length text" by simp
    show "\<forall>p<length text. (?out ! p = 32) = (text ! p = 32)"
      using atbash_char_space_iff [OF assms(3)] valid by simp
    show "\<forall>d\<in>set ?out. d \<noteq> 32 \<longrightarrow> d \<in> set alphabet"
      using atbash_map_valid [OF valid] by blast
  qed
qed

text \<open>
  One text with a space, under the three ciphers.
\<close>

theorem ciphers_keep_shape_witness:
  "caesar_cipher (str ''fa de'') 3 (str ''abcdef'') True = Inr (str ''cd ab'')
   \<and> vigenere_cipher (str ''fa de'') (str ''b c'') (str ''abcdef'') True = Inr (str ''ac ff'')
   \<and> atbash_cipher (str ''fa de'') (str ''abcdef'') True = Inr (str ''af cb'')
   \<and> (\<exists>out. caesar_cipher (str ''fa de'') 3 (str ''abcdef'') True = Inr out
         \<and> length out = 5 \<and> out ! 2 = 32)
   \<and> (\<exists>out. vigenere_cipher (str ''fa de'') (str ''b c'') (str ''abcdef'') True = Inr out
         \<and> length out = 5 \<and> out ! 2 = 32)
   \<and> (\<exists>out. atbash_cipher (str ''fa de'') (str ''abcdef'') True = Inr out
         \<and> length out = 5 \<and> out ! 2 = 32)"
proof -
  have h: "str ''abcdef'' \<noteq> []" "distinct (str ''abcdef'')" "32 \<notin> set (str ''abcdef'')"
    "set (str ''fa de'') \<subseteq> set (str ''abcdef'') \<union> {32}"
    "set (str ''b c'') \<subseteq> set (str ''abcdef'') \<union> {32}"
    "remove_spaces (str ''b c'') \<noteq> []"
    by (simp_all add: str_def remove_spaces_def)
  have l: "length (str ''fa de'') = 5" "(2::nat) < length (str ''fa de'')" "str ''fa de'' ! 2 = 32"
    by (simp_all add: str_def)
  note k = ciphers_keep_shape [OF h, of 3 True]
  from k [THEN conjunct1] obtain o1 where o1:
    "caesar_cipher (str ''fa de'') 3 (str ''abcdef'') True = Inr o1"
    "length o1 = length (str ''fa de'')"
    "\<forall>p<length (str ''fa de''). (o1 ! p = 32) = (str ''fa de'' ! p = 32)"
    by blast
  from k [THEN conjunct2, THEN conjunct1] obtain o2 where o2:
    "vigenere_cipher (str ''fa de'') (str ''b c'') (str ''abcdef'') True = Inr o2"
    "length o2 = length (str ''fa de'')"
    "\<forall>p<length (str ''fa de''). (o2 ! p = 32) = (str ''fa de'' ! p = 32)"
    by blast
  from k [THEN conjunct2, THEN conjunct2] obtain o3 where o3:
    "atbash_cipher (str ''fa de'') (str ''abcdef'') True = Inr o3"
    "length o3 = length (str ''fa de'')"
    "\<forall>p<length (str ''fa de''). (o3 ! p = 32) = (str ''fa de'' ! p = 32)"
    by blast
  have c1: "\<exists>out. caesar_cipher (str ''fa de'') 3 (str ''abcdef'') True = Inr out
         \<and> length out = 5 \<and> out ! 2 = 32"
    using o1(1) o1(2) o1(3) [rule_format, OF l(2)] l(1,3) by simp
  have c2: "\<exists>out. vigenere_cipher (str ''fa de'') (str ''b c'') (str ''abcdef'') True = Inr out
         \<and> length out = 5 \<and> out ! 2 = 32"
    using o2(1) o2(2) o2(3) [rule_format, OF l(2)] l(1,3) by simp
  have c3: "\<exists>out. atbash_cipher (str ''fa de'') (str ''abcdef'') True = Inr out
         \<and> length out = 5 \<and> out ! 2 = 32"
    using o3(1) o3(2) o3(3) [rule_format, OF l(2)] l(1,3) by simp
  have e1: "caesar_cipher (str ''fa de'') 3 (str ''abcdef'') True = Inr (str ''cd ab'')"
    by (simp add: str_def caesar_cipher_def caesar_new_idx_def py_mod_def getitem_def)
  have e2: "vigenere_cipher (str ''fa de'') (str ''b c'') (str ''abcdef'') True = Inr (str ''ac ff'')"
    by (simp add: str_def vigenere_cipher_def remove_spaces_def vigenere_new_idx_def py_mod_def
        getitem_def)
  have e3: "atbash_cipher (str ''fa de'') (str ''abcdef'') True = Inr (str ''af cb'')"
    by (simp add: str_def atbash_cipher_def getitem_def)
  from e1 e2 e3 c1 c2 c3 show ?thesis by (intro conjI)
qed

text \<open>
  Over the alphabet \<open>a b\<close>, which contains a space, the Caesar cipher with key 1 turns
  the \<open>a\<close> at position 1 into a space.
\<close>

theorem ciphers_keep_shape_counterexample:
  "read_alphabet [str ''alphabet.txt'' \<mapsto> str ''a b''] (str ''alphabet.txt'') = Inr (str ''a b'')
   \<and> str ''a b'' \<noteq> [] \<and> distinct (str ''a b'')
   \<and> set (str ''ba'') \<subseteq> set (str ''a b'') \<union> {32}
   \<and> caesar_cipher (str ''ba'') 1 (str ''a b'') True = Inr (str ''a '')
   \<and> str ''a '' ! 1 = 32 \<and> str ''ba'' ! 1 \<noteq> 32"
  by (simp add: str_def read_alphabet_def strip_def py_isspace_def caesar_cipher_def
      caesar_new_idx_def py_mod_def getitem_def)

end
